theory Spec2Isabelle
  imports Main "HOL-Library.Stream"
begin

section \<open>Coupon distribution generator (app.py)\<close>

text \<open>
  Python integers are unbounded, so amounts and counts are \<open>int\<close>. The process-wide
  random source is an infinite stream of natural numbers that is threaded through every
  function: each call of \<open>random.choice\<close> consumes the head of the stream and returns
  the element at that draw modulo the length of the sequence. A statement quantified over
  the stream is a statement about every sequence of random choices.
\<close>

subsection \<open>Constants and the random source\<close>

definition COUPON_VALUES :: "int list" where
  "COUPON_VALUES = [250, 500, 1000, 2000]"

type_synonym rng = "nat stream"

text \<open>
  \<open>random.choice(seq)\<close>. The source calls it only under a guard that \<open>seq\<close> is
  not empty, so the IndexError of the empty sequence is never raised.
\<close>

definition choice :: "int list \<Rightarrow> rng \<Rightarrow> int \<times> rng" where
  "choice seq rs = (seq ! (shd rs mod length seq), stl rs)"

subsection \<open>Seeding (lines 16--35)\<close>

text \<open>
  The body of the seeding loop after its \<open>break\<close> test (lines 25--35), at position
  \<open>i\<close>, on the state \<open>(distribution, remaining)\<close>.
\<close>

definition upgrade_position :: "nat \<Rightarrow> int list \<Rightarrow> int \<Rightarrow> rng \<Rightarrow> int list \<times> int \<times> rng" where
  "upgrade_position i distribution remaining rs =
     (let current_value = distribution ! i;
          possible_upgrades = filter (\<lambda>v. v > current_value) COUPON_VALUES
      in if possible_upgrades \<noteq> [] \<and> remaining > 0 then
           let valid_upgrades = filter (\<lambda>v. v - current_value \<le> remaining) possible_upgrades
           in if valid_upgrades \<noteq> [] then
                let (new_value, rs') = choice valid_upgrades rs
                in (distribution[i := new_value], remaining - (new_value - current_value), rs')
              else (distribution, remaining, rs)
         else (distribution, remaining, rs))"

text \<open>
  \<open>for i in range(num_coupons)\<close> over the list of positions still to visit, leaving
  the loop as soon as \<open>remaining <= 0\<close>.
\<close>

fun seed_loop :: "nat list \<Rightarrow> int list \<Rightarrow> int \<Rightarrow> rng \<Rightarrow> int list \<times> int \<times> rng" where
  "seed_loop [] distribution remaining rs = (distribution, remaining, rs)"
| "seed_loop (i # is) distribution remaining rs =
     (if remaining \<le> 0 then (distribution, remaining, rs)
      else case upgrade_position i distribution remaining rs of
             (distribution', remaining', rs') \<Rightarrow> seed_loop is distribution' remaining' rs')"

subsection \<open>Exact adjustment (lines 38--58)\<close>

text \<open>The body of the inner loop after its \<open>break\<close> test (lines 46--58).\<close>

definition adjust_position :: "int \<Rightarrow> nat \<Rightarrow> int list \<Rightarrow> rng \<Rightarrow> int list \<times> rng" where
  "adjust_position target_amount i distribution rs =
     (let diff = target_amount - sum_list distribution;
          current_value = distribution ! i
      in if diff > 0 then
           let possible_increases =
                 filter (\<lambda>v. v > current_value \<and> v - current_value \<le> diff) COUPON_VALUES
           in if possible_increases \<noteq> [] then
                let (v, rs') = choice possible_increases rs in (distribution[i := v], rs')
              else (distribution, rs)
         else if diff < 0 then
           let possible_decreases =
                 filter (\<lambda>v. v < current_value \<and> current_value - v \<le> \<bar>diff\<bar>) COUPON_VALUES
           in if possible_decreases \<noteq> [] then
                let (v, rs') = choice possible_decreases rs in (distribution[i := v], rs')
              else (distribution, rs)
         else (distribution, rs))"

text \<open>
  One round: \<open>for i in range(num_coupons)\<close>, leaving the round as soon as the sum
  equals the target.
\<close>

fun adjust_round :: "int \<Rightarrow> nat list \<Rightarrow> int list \<Rightarrow> rng \<Rightarrow> int list \<times> rng" where
  "adjust_round target_amount [] distribution rs = (distribution, rs)"
| "adjust_round target_amount (i # is) distribution rs =
     (if sum_list distribution = target_amount then (distribution, rs)
      else case adjust_position target_amount i distribution rs of
             (distribution', rs') \<Rightarrow> adjust_round target_amount is distribution' rs')"

text \<open>
  The \<open>while\<close> loop of line 39. It returns the local variable \<open>attempts\<close> with the
  distribution, so that the number of rounds that were run can be stated.
\<close>

function adjust_loop :: "int \<Rightarrow> int \<Rightarrow> int list \<Rightarrow> int \<Rightarrow> rng \<Rightarrow> int list \<times> int \<times> rng" where
  "adjust_loop target_amount num_coupons distribution attempts rs =
     (if sum_list distribution \<noteq> target_amount \<and> attempts < 1000 then
        case adjust_round target_amount [0..<nat num_coupons] distribution rs of
          (distribution', rs') \<Rightarrow>
            adjust_loop target_amount num_coupons distribution' (attempts + 1) rs'
      else (distribution, attempts, rs))"
  by pat_completeness auto

termination
  by (relation "measure (\<lambda>(t, n, d, a, rs). nat (1000 - a))") auto

declare adjust_loop.simps [simp del]

subsection \<open>The generator\<close>

text \<open>
  Lines 16--58: seeding, then adjustment. The result is the distribution, the number of
  adjustment rounds run and the random source that is left.
\<close>

definition search :: "int \<Rightarrow> int \<Rightarrow> rng \<Rightarrow> int list \<times> int \<times> rng" where
  "search target_amount num_coupons rs =
     (let distribution = replicate (nat num_coupons) (min_list COUPON_VALUES);
          remaining = target_amount - sum_list distribution
      in case seed_loop [0..<nat num_coupons] distribution remaining rs of
           (distribution', remaining', rs') \<Rightarrow>
             adjust_loop target_amount num_coupons distribution' 0 rs')"

text \<open>\<open>generate_coupon_distribution\<close>: \<open>None\<close> is Python's \<open>None\<close>.\<close>

definition generate_coupon_distribution :: "int \<Rightarrow> int \<Rightarrow> rng \<Rightarrow> int list option \<times> rng" where
  "generate_coupon_distribution target_amount num_coupons rs =
     (if target_amount < num_coupons * min_list COUPON_VALUES then (None, rs)
      else case search target_amount num_coupons rs of
             (distribution, attempts, rs') \<Rightarrow> (Some distribution, rs'))"

subsection \<open>Alternative combinations (lines 62--77)\<close>

text \<open>
  Python's truth value of the generator's result: \<open>None\<close> and the empty list are false.
\<close>

fun truthy :: "int list option \<Rightarrow> bool" where
  "truthy None = False"
| "truthy (Some d) = (d \<noteq> [])"

text \<open>
  \<open>for _ in range(max_attempts)\<close>, by recursion on the number of iterations left. The
  list \<open>calls\<close> is not a variable of the source: it records the result of every
  invocation of the generator, in order, so that the number of invocations can be stated.
  In \<open>distribution and sum(distribution) == target_amount\<close> the sum is taken only of a
  true \<open>distribution\<close>; the conjunction below is false for \<open>None\<close> whatever
  \<open>the None\<close> is. The default \<open>num_alternatives = 5\<close> is left to the caller.
\<close>

fun alternatives_loop ::
  "nat \<Rightarrow> int \<Rightarrow> int \<Rightarrow> int \<Rightarrow> int list list \<Rightarrow> int list option list \<Rightarrow> rng
     \<Rightarrow> int list list \<times> int list option list \<times> rng" where
  "alternatives_loop 0 target_amount num_coupons num_alternatives alternatives calls rs =
     (alternatives, calls, rs)"
| "alternatives_loop (Suc k) target_amount num_coupons num_alternatives alternatives calls rs =
     (case generate_coupon_distribution target_amount num_coupons rs of
        (distribution, rs') \<Rightarrow>
          let calls' = calls @ [distribution] in
          if truthy distribution \<and> sum_list (the distribution) = target_amount then
            let sorted_dist = sort (the distribution) in
            if sorted_dist \<notin> set (map sort alternatives) then
              let alternatives' = alternatives @ [the distribution] in
              if int (length alternatives') \<ge> num_alternatives then (alternatives', calls', rs')
              else alternatives_loop k target_amount num_coupons num_alternatives
                     alternatives' calls' rs'
            else alternatives_loop k target_amount num_coupons num_alternatives
                   alternatives calls' rs'
          else alternatives_loop k target_amount num_coupons num_alternatives
                 alternatives calls' rs')"

definition max_attempts :: nat where
  "max_attempts = 100"

definition generate_alternative_combinations ::
  "int \<Rightarrow> int \<Rightarrow> int \<Rightarrow> rng \<Rightarrow> int list list \<times> int list option list \<times> rng" where
  "generate_alternative_combinations target_amount num_coupons num_alternatives rs =
     alternatives_loop max_attempts target_amount num_coupons num_alternatives [] [] rs"

section \<open>Basic facts\<close>

lemma min_COUPON_VALUES: "min_list COUPON_VALUES = 250"
  by (simp add: COUPON_VALUES_def)

lemma choice_in_set: "seq \<noteq> [] \<Longrightarrow> fst (choice seq rs) \<in> set seq"
  by (simp add: choice_def)

lemma choice_snd: "snd (choice seq rs) = stl rs"
  by (simp add: choice_def)

lemma in_COUPON_VALUES:
  "v \<in> set COUPON_VALUES \<longleftrightarrow> v = 250 \<or> v = 500 \<or> v = 1000 \<or> v = 2000"
  by (auto simp: COUPON_VALUES_def)

lemma sum_list_update_int:
  "i < length (xs::int list) \<Longrightarrow> sum_list (xs[i := v]) = sum_list xs + v - xs ! i"
  by (induction xs arbitrary: i) (auto split: nat.splits)

lemma set_update_COUPON_VALUES:
  "set d \<subseteq> set COUPON_VALUES \<Longrightarrow> v \<in> set COUPON_VALUES \<Longrightarrow> set (d[i := v]) \<subseteq> set COUPON_VALUES"
  using set_update_subset_insert [of d i v] by auto

lemma upgrade_position_cases:
  assumes "upgrade_position i d r rs = (d', r', rs')"
  obtains (keep) "d' = d" "r' = r" "rs' = rs"
  | (upgrade) v where "v \<in> set COUPON_VALUES" "d ! i < v" "v - d ! i \<le> r" "0 < r"
      "d' = d[i := v]" "r' = r - (v - d ! i)" "rs' = stl rs"
proof -
  let ?V = "filter (\<lambda>v. v - d ! i \<le> r) (filter (\<lambda>v. v > d ! i) COUPON_VALUES)"
  show thesis
  proof (cases "filter (\<lambda>v. v > d ! i) COUPON_VALUES \<noteq> [] \<and> r > 0 \<and> ?V \<noteq> []")
    case True
    then have "fst (choice ?V rs) \<in> set ?V" by (intro choice_in_set) simp
    moreover from True assms have "d' = d[i := fst (choice ?V rs)]"
      "r' = r - (fst (choice ?V rs) - d ! i)" "rs' = stl rs"
      by (auto simp: upgrade_position_def Let_def choice_def split: prod.splits)
    ultimately show thesis using True by (intro upgrade [of "fst (choice ?V rs)"]) auto
  next
    case False
    with assms have "d' = d" "r' = r" "rs' = rs"
      by (auto simp: upgrade_position_def Let_def split: if_splits)
    then show thesis by (rule keep)
  qed
qed

lemma adjust_position_cases:
  assumes "adjust_position t i d rs = (d', rs')"
  obtains (keep) "d' = d" "rs' = rs"
  | (increase) v where "v \<in> set COUPON_VALUES" "d ! i < v" "v - d ! i \<le> t - sum_list d"
      "d' = d[i := v]" "rs' = stl rs"
  | (decrease) v where "v \<in> set COUPON_VALUES" "v < d ! i" "d ! i - v \<le> sum_list d - t"
      "sum_list d > t" "d' = d[i := v]" "rs' = stl rs"
proof -
  let ?I = "filter (\<lambda>v. v > d ! i \<and> v - d ! i \<le> t - sum_list d) COUPON_VALUES"
  let ?D = "filter (\<lambda>v. v < d ! i \<and> d ! i - v \<le> \<bar>t - sum_list d\<bar>) COUPON_VALUES"
  consider (a) "t - sum_list d > 0" "?I \<noteq> []" | (b) "t - sum_list d < 0" "?D \<noteq> []"
    | (c) "\<not> (t - sum_list d > 0 \<and> ?I \<noteq> [])" "\<not> (t - sum_list d < 0 \<and> ?D \<noteq> [])"
    by blast
  then show thesis
  proof cases
    case a
    then have "fst (choice ?I rs) \<in> set ?I" by (intro choice_in_set) simp
    moreover from a assms have "d' = d[i := fst (choice ?I rs)]" "rs' = stl rs"
      by (auto simp: adjust_position_def Let_def choice_def split: prod.splits)
    ultimately show thesis by (intro increase [of "fst (choice ?I rs)"]) auto
  next
    case b
    then have "fst (choice ?D rs) \<in> set ?D" by (intro choice_in_set) simp
    moreover from b assms have "d' = d[i := fst (choice ?D rs)]" "rs' = stl rs"
      by (auto simp: adjust_position_def Let_def choice_def split: prod.splits)
    ultimately show thesis using b by (intro decrease [of "fst (choice ?D rs)"]) auto
  next
    case c
    with assms have "d' = d" "rs' = rs"
      by (auto simp: adjust_position_def Let_def split: if_splits)
    then show thesis by (rule keep)
  qed
qed

lemma sum_list_replicate_int: "sum_list (replicate k (c::int)) = int k * c"
  by (induction k) (simp_all add: algebra_simps)

lemma sum_list_le_max:
  "set d \<subseteq> set COUPON_VALUES \<Longrightarrow> sum_list d \<le> int (length d) * 2000"
  by (induction d) (auto simp: in_COUPON_VALUES)

lemma choice_1: "choice [x] rs = (x, stl rs)"
  by (simp add: choice_def)

lemma choice_2_cases:
  obtains "choice [x, y] rs = (x, stl rs)" | "choice [x, y] rs = (y, stl rs)"
proof -
  have "shd rs mod 2 = 0 \<or> shd rs mod 2 = 1" by presburger
  then have "choice [x, y] rs = (x, stl rs) \<or> choice [x, y] rs = (y, stl rs)"
    by (auto simp: choice_def numeral_2_eq_2)
  then show thesis using that by blast
qed

lemma choice_3_cases:
  obtains "choice [x, y, z] rs = (x, stl rs)" | "choice [x, y, z] rs = (y, stl rs)"
  | "choice [x, y, z] rs = (z, stl rs)"
proof -
  have unfold: "choice [x, y, z] rs = ([x, y, z] ! (shd rs mod 3), stl rs)"
    by (simp add: choice_def)
  consider "shd rs mod 3 = 0" | "shd rs mod 3 = 1" | "shd rs mod 3 = 2" by linarith
  then show thesis
  proof cases
    case 1
    have "choice [x, y, z] rs = (x, stl rs)" unfolding unfold 1 by simp
    then show thesis by (rule that(1))
  next
    case 2
    have "choice [x, y, z] rs = (y, stl rs)" unfolding unfold 2 by simp
    then show thesis by (rule that(2))
  next
    case 3
    have "choice [x, y, z] rs = (z, stl rs)" unfolding unfold 3 by simp
    then show thesis by (rule that(3))
  qed
qed

lemma choice_exists:
  assumes "v \<in> set seq"
  shows "\<exists>j. choice seq (j ## rs) = (v, rs)"
proof -
  from assms obtain j where "j < length seq" "seq ! j = v"
    by (auto simp: in_set_conv_nth)
  then have "choice seq (j ## rs) = (v, rs)" by (simp add: choice_def)
  then show ?thesis ..
qed

section \<open>Loop invariants\<close>

lemma seed_loop_inv:
  assumes "seed_loop is d r rs = (d', r', rs')" "\<forall>i\<in>set is. i < length d"
    "set d \<subseteq> set COUPON_VALUES" "0 \<le> r"
  shows "length d' = length d \<and> set d' \<subseteq> set COUPON_VALUES
    \<and> sum_list d' + r' = sum_list d + r \<and> 0 \<le> r'"
  using assms
proof (induction "is" arbitrary: d r rs)
  case Nil
  then show ?case by simp
next
  case (Cons i "is")
  show ?case
  proof (cases "r \<le> 0")
    case True
    with Cons.prems show ?thesis by simp
  next
    case False
    obtain d1 r1 rs1 where up: "upgrade_position i d r rs = (d1, r1, rs1)"
      by (cases "upgrade_position i d r rs") auto
    from Cons.prems have i: "i < length d" by simp
    have step: "length d1 = length d \<and> set d1 \<subseteq> set COUPON_VALUES
      \<and> sum_list d1 + r1 = sum_list d + r \<and> 0 \<le> r1"
      using up
    proof (cases rule: upgrade_position_cases)
      case keep
      with Cons.prems show ?thesis by simp
    next
      case (upgrade v)
      with Cons.prems i show ?thesis
        by (simp add: sum_list_update_int set_update_COUPON_VALUES)
    qed
    from Cons.prems False up have "seed_loop is d1 r1 rs1 = (d', r', rs')" by simp
    from Cons.IH [OF this] step Cons.prems show ?thesis by simp
  qed
qed

lemma adjust_position_inv:
  assumes "adjust_position t i d rs = (d', rs')" "i < length d" "set d \<subseteq> set COUPON_VALUES"
  shows "length d' = length d \<and> set d' \<subseteq> set COUPON_VALUES
    \<and> (sum_list d \<le> t \<longrightarrow> sum_list d \<le> sum_list d' \<and> sum_list d' \<le> t)"
  using assms(1)
proof (cases rule: adjust_position_cases)
  case keep
  with assms show ?thesis by simp
next
  case (increase v)
  with assms show ?thesis
    by (simp add: sum_list_update_int set_update_COUPON_VALUES)
next
  case (decrease v)
  with assms show ?thesis
    by (simp add: sum_list_update_int set_update_COUPON_VALUES)
qed

lemma adjust_round_inv:
  assumes "adjust_round t is d rs = (d', rs')" "\<forall>i\<in>set is. i < length d"
    "set d \<subseteq> set COUPON_VALUES"
  shows "length d' = length d \<and> set d' \<subseteq> set COUPON_VALUES
    \<and> (sum_list d \<le> t \<longrightarrow> sum_list d \<le> sum_list d' \<and> sum_list d' \<le> t)"
  using assms
proof (induction "is" arbitrary: d rs)
  case Nil
  then show ?case by simp
next
  case (Cons i "is")
  show ?case
  proof (cases "sum_list d = t")
    case True
    with Cons.prems show ?thesis by simp
  next
    case False
    obtain d1 rs1 where ap: "adjust_position t i d rs = (d1, rs1)"
      by (cases "adjust_position t i d rs") auto
    from Cons.prems have i: "i < length d" by simp
    note step = adjust_position_inv [OF ap i Cons.prems(3)]
    from Cons.prems False ap have "adjust_round t is d1 rs1 = (d', rs')" by simp
    from Cons.IH [OF this] step Cons.prems(2) show ?thesis by auto
  qed
qed

lemma adjust_loop_inv:
  assumes "adjust_loop t n d a rs = (d', a', rs')" "length d = nat n"
    "set d \<subseteq> set COUPON_VALUES"
  shows "length d' = nat n \<and> set d' \<subseteq> set COUPON_VALUES
    \<and> (sum_list d \<le> t \<longrightarrow> sum_list d' \<le> t)
    \<and> a \<le> a' \<and> (a \<le> 1000 \<longrightarrow> a' \<le> 1000) \<and> (sum_list d' = t \<or> 1000 \<le> a')"
  using assms
proof (induction t n d a rs rule: adjust_loop.induct)
  case (1 t n d a rs)
  show ?case
  proof (cases "sum_list d \<noteq> t \<and> a < 1000")
    case False
    with "1.prems" show ?thesis by (auto simp: adjust_loop.simps [of t n d a rs])
  next
    case True
    obtain d1 rs1 where ar: "adjust_round t [0..<nat n] d rs = (d1, rs1)"
      by (cases "adjust_round t [0..<nat n] d rs") auto
    have "\<forall>i\<in>set [0..<nat n]. i < length d" using "1.prems" by simp
    note step = adjust_round_inv [OF ar this "1.prems"(3)]
    from True ar "1.prems" have "adjust_loop t n d1 (a + 1) rs1 = (d', a', rs')"
      by (simp add: adjust_loop.simps [of t n d a rs])
    from "1.IH" [OF True ar [symmetric] this] step "1.prems" True show ?thesis by auto
  qed
qed

lemma search_inv:
  assumes "search t n rs = (d, a, rs')" "0 \<le> n" "n * 250 \<le> t"
  shows "int (length d) = n \<and> set d \<subseteq> set COUPON_VALUES \<and> sum_list d \<le> t
    \<and> 0 \<le> a \<and> a \<le> 1000 \<and> (sum_list d = t \<or> a = 1000)"
proof -
  let ?d0 = "replicate (nat n) (250::int)"
  let ?r0 = "t - sum_list ?d0"
  obtain d1 r1 rs1 where seed: "seed_loop [0..<nat n] ?d0 ?r0 rs = (d1, r1, rs1)"
    by (cases "seed_loop [0..<nat n] ?d0 ?r0 rs") auto
  have r0: "0 \<le> ?r0" using assms(2,3) by (simp add: sum_list_replicate_int)
  have "\<forall>i\<in>set [0..<nat n]. i < length ?d0" by simp
  moreover have "set ?d0 \<subseteq> set COUPON_VALUES" by (auto simp: in_COUPON_VALUES)
  ultimately have s: "length d1 = length ?d0 \<and> set d1 \<subseteq> set COUPON_VALUES
    \<and> sum_list d1 + r1 = sum_list ?d0 + ?r0 \<and> 0 \<le> r1"
    using r0 by (intro seed_loop_inv [OF seed])
  from assms(1) seed have loop: "adjust_loop t n d1 0 rs1 = (d, a, rs')"
    by (simp add: search_def min_COUPON_VALUES)
  from s have "length d1 = nat n" "set d1 \<subseteq> set COUPON_VALUES" "sum_list d1 \<le> t" by auto
  with adjust_loop_inv [OF loop] assms(2) show ?thesis by auto
qed

lemma generate_Some:
  assumes "n * 250 \<le> t"
  shows "\<exists>d a rs'. search t n rs = (d, a, rs') \<and> generate_coupon_distribution t n rs = (Some d, rs')"
  using assms by (cases "search t n rs") (simp add: generate_coupon_distribution_def min_COUPON_VALUES)

lemma adjust_position_no_decrease:
  assumes "sum_list distribution \<le> target_amount"
  shows "adjust_position target_amount i distribution rs =
     (let diff = target_amount - sum_list distribution;
          current_value = distribution ! i;
          possible_increases =
            filter (\<lambda>v. v > current_value \<and> v - current_value \<le> diff) COUPON_VALUES
      in if diff > 0 \<and> possible_increases \<noteq> [] then
           let (v, rs') = choice possible_increases rs in (distribution[i := v], rs')
         else (distribution, rs))"
  using assms by (simp add: adjust_position_def Let_def)

section \<open>Running the loops\<close>

lemma search_one:
  "search t 1 rs =
     (case seed_loop [0] [250] (t - 250) rs of (d, r, rs') \<Rightarrow> adjust_loop t 1 d 0 rs')"
  by (simp add: search_def min_COUPON_VALUES)

lemma search_two:
  "search t 2 rs =
     (case seed_loop [0, Suc 0] [250, 250] (t - 500) rs of
        (d, r, rs') \<Rightarrow> adjust_loop t 2 d 0 rs')"
  by (simp add: search_def min_COUPON_VALUES numeral_2_eq_2)

lemma adjust_loop_two:
  "adjust_loop t 2 d a rs =
     (if sum_list d \<noteq> t \<and> a < 1000 then
        case adjust_round t [0, Suc 0] d rs of (d', rs') \<Rightarrow> adjust_loop t 2 d' (a + 1) rs'
      else (d, a, rs))"
  by (subst adjust_loop.simps) (simp add: numeral_2_eq_2)

lemma adjust_loop_done: "sum_list d = t \<Longrightarrow> adjust_loop t n d a rs = (d, a, rs)"
  by (simp add: adjust_loop.simps)

lemma adjust_loop_stuck:
  assumes "\<And>rs. adjust_round t [0..<nat n] d rs = (d, rs)" "sum_list d \<noteq> t" "a \<le> 1000"
  shows "adjust_loop t n d a rs = (d, 1000, rs)"
  using assms
proof (induction t n d a rs rule: adjust_loop.induct)
  case (1 t n d a rs)
  show ?case
  proof (cases "a < 1000")
    case True
    with "1.prems" have "adjust_loop t n d (a + 1) rs = (d, 1000, rs)"
      by (intro "1.IH" [of d rs]) auto
    with True "1.prems" show ?thesis by (subst adjust_loop.simps) simp
  next
    case False
    with "1.prems" show ?thesis by (subst adjust_loop.simps) simp
  qed
qed

lemma seed_loop_zero: "seed_loop is d 0 rs = (d, 0, rs)"
  by (cases "is") simp_all

section \<open>The distribution generator\<close>

text \<open>
  C2. Whenever \<open>target < count * 250\<close> (250 being the least denomination), in particular
  for positive target and count, the generator returns \<open>None\<close> at once, whatever the
  random choices are: the random source comes back untouched, so neither the seeding nor
  the adjustment has drawn from it. The request \<open>target = 100\<close>, \<open>count = 1\<close> is such
  a case.
\<close>

theorem infeasible_low_returns_None:
  assumes "target_amount < num_coupons * 250"
  shows "generate_coupon_distribution target_amount num_coupons rs = (None, rs)"
  using assms by (simp add: generate_coupon_distribution_def min_COUPON_VALUES)

theorem infeasible_low_returns_None_witness:
  "(100::int) < 1 * 250
   \<and> generate_coupon_distribution 100 1 (sconst 0) = (None, sconst 0)"
  using infeasible_low_returns_None [of 100 1 "sconst 0"] by simp

lemma generate_1750_3:
  "generate_coupon_distribution 1750 3 (sconst 1) = (Some [1000, 500, 250], sconst 1)"
  by (simp add: generate_coupon_distribution_def search_def min_COUPON_VALUES
      upgrade_position_def COUPON_VALUES_def choice_def adjust_loop.simps numeral_3_eq_3)

text \<open>
  C3. For a positive count and a target of at least \<open>count * 250\<close> (hence positive),
  whatever the random choices are, the generator returns a sequence of length exactly
  \<open>count\<close> whose elements all belong to the denominations 250, 500, 1000, 2000.
\<close>

theorem distribution_length_and_members:
  assumes "0 < num_coupons" "num_coupons * 250 \<le> target_amount"
  shows "\<exists>d rs'. generate_coupon_distribution target_amount num_coupons rs = (Some d, rs')
    \<and> int (length d) = num_coupons \<and> set d \<subseteq> set COUPON_VALUES"
proof -
  from generate_Some [OF assms(2)] obtain d a rs'
    where "search target_amount num_coupons rs = (d, a, rs')"
      and "generate_coupon_distribution target_amount num_coupons rs = (Some d, rs')"
    by blast
  with search_inv [of target_amount num_coupons rs d a rs'] assms show ?thesis by auto
qed

theorem distribution_length_and_members_witness:
  "(0::int) < 3 \<and> (3::int) * 250 \<le> 1750
   \<and> generate_coupon_distribution 1750 3 (sconst 1) = (Some [1000, 500, 250], sconst 1)
   \<and> int (length [1000, 500, 250 :: int]) = 3
   \<and> set [1000, 500, 250] \<subseteq> set COUPON_VALUES"
  using distribution_length_and_members [of 3 1750 "sconst 1"] generate_1750_3
  by (simp add: COUPON_VALUES_def)

lemma search_1250_2: "search 1250 2 (sconst 0) = ([500, 500], 1000, sconst 0)"
proof -
  have "seed_loop [0, Suc 0] [250, 250] 750 (sconst 0) = ([500, 500], 250, sconst 0)"
    by (simp add: upgrade_position_def COUPON_VALUES_def choice_def)
  moreover have "adjust_loop 1250 2 [500, 500] 0 (sconst 0) = ([500, 500], 1000, sconst 0)"
    by (rule adjust_loop_stuck)
      (simp_all add: adjust_position_def COUPON_VALUES_def numeral_2_eq_2)
  ultimately show ?thesis by (simp add: search_two)
qed

text \<open>
  C10. For a positive count and a target of at least \<open>count * 250\<close>, whatever the random
  choices are, the sum of the returned sequence is at most the target. Seeding keeps
  \<open>remaining\<close> non-negative (\<open>seed_loop_inv\<close>), an adjustment step never raises the sum
  above the target (\<open>adjust_position_inv\<close>), and under that invariant the decreasing
  branch of the adjustment is dead code (\<open>adjust_position_no_decrease\<close>).
\<close>

theorem distribution_never_overshoots:
  assumes "0 < num_coupons" "num_coupons * 250 \<le> target_amount"
  shows "\<exists>d rs'. generate_coupon_distribution target_amount num_coupons rs = (Some d, rs')
    \<and> sum_list d \<le> target_amount"
proof -
  from generate_Some [OF assms(2)] obtain d a rs'
    where "search target_amount num_coupons rs = (d, a, rs')"
      and "generate_coupon_distribution target_amount num_coupons rs = (Some d, rs')"
    by blast
  with search_inv [of target_amount num_coupons rs d a rs'] assms show ?thesis by auto
qed

theorem distribution_never_overshoots_witness:
  "(0::int) < 2 \<and> (2::int) * 250 \<le> 1250
   \<and> generate_coupon_distribution 1250 2 (sconst 0) = (Some [500, 500], sconst 0)
   \<and> sum_list [500, 500] \<le> (1250::int)"
  using distribution_never_overshoots [of 2 1250 "sconst 0"]
  by (simp add: generate_coupon_distribution_def min_COUPON_VALUES search_1250_2)

lemma search_3000_1: "search 3000 1 (sconst 2) = ([2000], 1000, sconst 2)"
proof -
  have "seed_loop [0] [250] 2750 (sconst 2) = ([2000], 1000, sconst 2)"
    by (simp add: upgrade_position_def COUPON_VALUES_def choice_def)
  moreover have "adjust_loop 3000 1 [2000] 0 (sconst 2) = ([2000], 1000, sconst 2)"
    by (rule adjust_loop_stuck) (simp_all add: adjust_position_def COUPON_VALUES_def)
  ultimately show ?thesis by (simp add: search_one)
qed

text \<open>
  C7. For a target above \<open>count * 2000\<close> (2000 being the greatest denomination) the
  generator does not return \<open>None\<close>: whatever the random choices are, the adjustment
  loop runs all of its 1000 rounds and the sequence returned has length \<open>count\<close> and a
  sum different from the target. The count is a number of coupons, positive by the
  contract of the generator; the statement holds for 0 as well.
\<close>

theorem above_maximum_exhausts_budget:
  assumes "0 \<le> num_coupons" "num_coupons * 2000 < target_amount"
  shows "\<exists>d rs'. search target_amount num_coupons rs = (d, 1000, rs')
    \<and> generate_coupon_distribution target_amount num_coupons rs = (Some d, rs')
    \<and> int (length d) = num_coupons \<and> sum_list d \<noteq> target_amount"
proof -
  from assms have low: "num_coupons * 250 \<le> target_amount" by simp
  from generate_Some [OF low] obtain d a rs'
    where s: "search target_amount num_coupons rs = (d, a, rs')"
      and g: "generate_coupon_distribution target_amount num_coupons rs = (Some d, rs')"
    by blast
  from search_inv [OF s _ low] assms
  have inv: "int (length d) = num_coupons" "set d \<subseteq> set COUPON_VALUES"
    "sum_list d = target_amount \<or> a = 1000" by auto
  from sum_list_le_max [OF inv(2)] inv(1) assms(2) have "sum_list d \<noteq> target_amount" by simp
  with inv s g show ?thesis by auto
qed

theorem above_maximum_exhausts_budget_witness:
  "(0::int) \<le> 1 \<and> (1::int) * 2000 < 3000
   \<and> search 3000 1 (sconst 2) = ([2000], 1000, sconst 2)
   \<and> generate_coupon_distribution 3000 1 (sconst 2) = (Some [2000], sconst 2)
   \<and> int (length [2000 :: int]) = 1 \<and> sum_list [2000] \<noteq> (3000::int)"
  using above_maximum_exhausts_budget [of 1 3000 "sconst 2"]
  by (simp add: generate_coupon_distribution_def min_COUPON_VALUES search_3000_1)

subsection \<open>Concrete scenarios\<close>

lemma seed_1000_1:
  "\<exists>v. (v = 500 \<or> v = 1000) \<and> seed_loop [0] [250] 750 rs = ([v], 1000 - v, stl rs)"
proof (cases rule: choice_2_cases [of 500 1000 rs])
  case 1
  then have "seed_loop [0] [250] 750 rs = ([500], 500, stl rs)"
    by (simp add: upgrade_position_def COUPON_VALUES_def)
  then show ?thesis by simp
next
  case 2
  then have "seed_loop [0] [250] 750 rs = ([1000], 0, stl rs)"
    by (simp add: upgrade_position_def COUPON_VALUES_def)
  then show ?thesis by simp
qed

lemma adjust_loop_1000_500: "adjust_loop 1000 1 [500] 0 rs = ([1000], 1, stl rs)"
  by (subst adjust_loop.simps)
    (simp add: adjust_position_def COUPON_VALUES_def choice_1 adjust_loop_done)

lemma search_1000_1: "\<exists>a rs'. search 1000 1 rs = ([1000], a, rs') \<and> a \<le> 1"
proof -
  from seed_1000_1 [of rs] obtain v where v: "v = 500 \<or> v = 1000"
    and seed: "seed_loop [0] [250] 750 rs = ([v], 1000 - v, stl rs)" by blast
  from v show ?thesis
  proof
    assume "v = 500"
    with seed show ?thesis by (simp add: search_one adjust_loop_1000_500)
  next
    assume "v = 1000"
    with seed show ?thesis by (simp add: search_one adjust_loop_done)
  qed
qed

text \<open>
  C8. Concrete scenario 1: whatever the random choices are,
  \<open>generate_coupon_distribution(1000, 1)\<close> returns exactly \<open>[1000]\<close>. Seeding picks
  500 or 1000; from 500 the first adjustment round can only move to 1000.
\<close>

theorem scenario_1000_1:
  "fst (generate_coupon_distribution 1000 1 rs) = Some [1000]"
proof -
  from search_1000_1 [of rs] obtain a rs' where "search 1000 1 rs = ([1000], a, rs')" by blast
  then show ?thesis by (simp add: generate_coupon_distribution_def min_COUPON_VALUES)
qed

lemma seed_4000_2:
  "\<exists>a b. seed_loop [0, Suc 0] [250, 250] 3500 rs = ([a, b], 4000 - a - b, stl (stl rs))
     \<and> a \<in> {500, 1000, 2000} \<and> b \<in> {500, 1000, 2000}"
  by (cases rule: choice_3_cases [of 500 1000 2000 rs];
      cases rule: choice_3_cases [of 500 1000 2000 "stl rs"])
    (simp_all add: upgrade_position_def COUPON_VALUES_def)

lemma round_4000_first:
  assumes "a \<in> {500, 1000, 2000}" "b \<in> {500, 1000, 2000}"
  shows "\<exists>a' b' rs'. adjust_round 4000 [0, Suc 0] [a, b] rs = ([a', b'], rs')
     \<and> a' \<in> {1000, 2000} \<and> b' \<in> {1000, 2000}"
  using assms
  by (cases rule: choice_2_cases [of 1000 2000 rs];
      cases rule: choice_2_cases [of 1000 2000 "stl rs"])
    (auto simp: adjust_position_def COUPON_VALUES_def choice_1)

lemma round_4000_second:
  assumes "a \<in> {1000, 2000}" "b \<in> {1000, 2000}"
  shows "\<exists>rs'. adjust_round 4000 [0, Suc 0] [a, b] rs = ([2000, 2000], rs')"
  using assms by (auto simp: adjust_position_def COUPON_VALUES_def choice_1)

lemma adjust_4000_second:
  assumes "a \<in> {1000, 2000}" "b \<in> {1000, 2000}" "att < 1000"
  shows "\<exists>att' rs'. adjust_loop 4000 2 [a, b] att rs = ([2000, 2000], att', rs')
     \<and> att' \<le> att + 1"
proof (cases "sum_list [a, b] = 4000")
  case True
  with assms have "[a, b] = [2000, 2000]" by auto
  with adjust_loop_done [of "[a, b]" 4000 2 att rs] show ?thesis by simp
next
  case False
  from round_4000_second [OF assms(1,2), of rs] obtain rs1
    where "adjust_round 4000 [0, Suc 0] [a, b] rs = ([2000, 2000], rs1)" by blast
  with False assms(3) have "adjust_loop 4000 2 [a, b] att rs = ([2000, 2000], att + 1, rs1)"
    by (subst adjust_loop_two) (simp add: adjust_loop_done)
  then show ?thesis by simp
qed

lemma adjust_4000_first:
  assumes "a \<in> {500, 1000, 2000}" "b \<in> {500, 1000, 2000}"
  shows "\<exists>att' rs'. adjust_loop 4000 2 [a, b] 0 rs = ([2000, 2000], att', rs') \<and> att' \<le> 2"
proof (cases "sum_list [a, b] = 4000")
  case True
  with assms have "[a, b] = [2000, 2000]" by auto
  with adjust_loop_done [of "[a, b]" 4000 2 0 rs] show ?thesis by simp
next
  case False
  from round_4000_first [OF assms, of rs] obtain a' b' rs1
    where round: "adjust_round 4000 [0, Suc 0] [a, b] rs = ([a', b'], rs1)"
      and mem: "a' \<in> {1000, 2000}" "b' \<in> {1000, 2000}" by blast
  from False round have "adjust_loop 4000 2 [a, b] 0 rs = adjust_loop 4000 2 [a', b'] 1 rs1"
    by (subst adjust_loop_two) simp
  with adjust_4000_second [OF mem, of 1 rs1] show ?thesis by auto
qed

lemma search_4000_2:
  "\<exists>attempts rs'. search 4000 2 rs = ([2000, 2000], attempts, rs') \<and> attempts \<le> 2"
proof -
  from seed_4000_2 [of rs] obtain a b
    where seed: "seed_loop [0, Suc 0] [250, 250] 3500 rs = ([a, b], 4000 - a - b, stl (stl rs))"
      and mem: "a \<in> {500, 1000, 2000}" "b \<in> {500, 1000, 2000}" by blast
  from seed have "search 4000 2 rs = adjust_loop 4000 2 [a, b] 0 (stl (stl rs))"
    by (simp add: search_two)
  with adjust_4000_first [OF mem, of "stl (stl rs)"] show ?thesis by simp
qed

lemma only_combination_4000_2:
  assumes "length d = 2" "set d \<subseteq> set COUPON_VALUES" "sum_list d = 4000"
  shows "d = [2000, 2000]"
proof -
  from assms(1) obtain a b where "d = [a, b]"
    by (auto simp: numeral_2_eq_2 length_Suc_conv)
  with assms(2,3) show ?thesis by (auto simp: in_COUPON_VALUES)
qed

text \<open>
  C9. Concrete scenario 4: whatever the random choices are,
  \<open>generate_coupon_distribution(4000, 2)\<close> returns \<open>[2000, 2000]\<close>, and the adjustment
  loop has then run at most 2 of its 1000 rounds. Seeding upgrades both positions to 500,
  1000 or 2000; the first round lifts every position to 1000 or 2000 and the second one
  to 2000. No other pair of denominations sums to 4000 (\<open>only_combination_4000_2\<close>).
\<close>

theorem scenario_4000_2:
  "\<exists>attempts rs'. search 4000 2 rs = ([2000, 2000], attempts, rs')
     \<and> attempts \<le> 2 \<and> attempts < 1000
     \<and> generate_coupon_distribution 4000 2 rs = (Some [2000, 2000], rs')"
proof -
  from search_4000_2 [of rs] obtain attempts rs'
    where "search 4000 2 rs = ([2000, 2000], attempts, rs')" "attempts \<le> 2" by blast
  then show ?thesis by (simp add: generate_coupon_distribution_def min_COUPON_VALUES)
qed

subsection \<open>Reaching an exact distribution\<close>

lemma upgrade_position_choose:
  assumes "d ! i = 250" "u \<in> {500, 1000, 2000}" "u - 250 \<le> r"
  shows "\<exists>j. upgrade_position i d r (j ## rs) = (d[i := u], r - (u - 250), rs)"
proof -
  let ?V = "filter (\<lambda>v. v - 250 \<le> r) (filter (\<lambda>v. v > 250) COUPON_VALUES)"
  from assms(2,3) have "u \<in> set ?V" by (auto simp: COUPON_VALUES_def)
  from choice_exists [OF this, of rs] obtain j where j: "choice ?V (j ## rs) = (u, rs)" ..
  from assms(2,3) have "0 < r" by auto
  with \<open>u \<in> set ?V\<close> j assms(1)
  have "upgrade_position i d r (j ## rs) = (d[i := u], r - (u - 250), rs)"
    by (auto simp: upgrade_position_def Let_def filter_empty_conv)
  then show ?thesis ..
qed

lemma upgrades_cost_nonneg:
  "set us \<subseteq> {500, 1000, 2000} \<Longrightarrow> 0 \<le> sum_list us - 250 * int (length us)"
  by (induction us) auto

lemma seed_loop_reach:
  assumes "set us \<subseteq> {500, 1000, 2000}"
  shows "\<exists>rs rs'. seed_loop [length pre..<length pre + length us + k]
      (pre @ replicate (length us + k) 250) (sum_list us - 250 * int (length us)) rs
    = (pre @ us @ replicate k 250, 0, rs')"
  using assms
proof (induction us arbitrary: pre)
  case Nil
  then show ?case by (simp add: seed_loop_zero)
next
  case (Cons u us)
  let ?i = "length pre"
  let ?d = "pre @ replicate (length (u # us) + k) 250"
  let ?r = "sum_list (u # us) - 250 * int (length (u # us))"
  let ?r' = "sum_list us - 250 * int (length us)"
  from Cons.prems have u: "u \<in> {500, 1000, 2000}" and us: "set us \<subseteq> {500, 1000, 2000}"
    by auto
  from Cons.IH [OF us, of "pre @ [u]"] obtain rs0 rs'
    where IH: "seed_loop [Suc ?i..<Suc ?i + length us + k]
      ((pre @ [u]) @ replicate (length us + k) 250) ?r' rs0
      = ((pre @ [u]) @ us @ replicate k 250, 0, rs')"
    by auto
  have cost: "u - 250 \<le> ?r" using upgrades_cost_nonneg [OF us] by simp
  have pos: "0 < ?r" using cost u by auto
  have "?d ! ?i = 250" by (simp add: nth_append)
  from upgrade_position_choose [OF this u cost, of rs0] obtain j
    where step: "upgrade_position ?i ?d ?r (j ## rs0) = (?d[?i := u], ?r - (u - 250), rs0)" ..
  have d': "?d[?i := u] = (pre @ [u]) @ replicate (length us + k) 250"
    by (simp add: list_update_append)
  have r': "?r - (u - 250) = ?r'" by simp
  have bound: "?i + length (u # us) + k = Suc ?i + length us + k" by simp
  have idx: "[?i..<?i + length (u # us) + k] = ?i # [Suc ?i..<Suc ?i + length us + k]"
    unfolding bound by (rule upt_conv_Cons) simp
  have "seed_loop [?i..<?i + length (u # us) + k] ?d ?r (j ## rs0)
    = (pre @ (u # us) @ replicate k 250, 0, rs')"
    unfolding idx using pos step IH by (simp add: d' r' del: upt_Suc)
  then show ?case by blast
qed

lemma sum_list_split_min:
  "sum_list (ds :: int list)
     = sum_list (filter (\<lambda>v. v \<noteq> 250) ds) + 250 * int (length (filter (\<lambda>v. v = 250) ds))"
  by (induction ds) auto

lemma search_reach:
  assumes "set ds \<subseteq> set COUPON_VALUES" "int (length ds) = num_coupons"
    "sum_list ds = target_amount"
  shows "\<exists>rs d rs'. search target_amount num_coupons rs = (d, 0, rs')
    \<and> int (length d) = num_coupons \<and> set d \<subseteq> set COUPON_VALUES
    \<and> sum_list d = target_amount"
proof -
  let ?us = "filter (\<lambda>v. v \<noteq> 250) ds"
  let ?k = "length (filter (\<lambda>v. v = 250) ds)"
  let ?d = "?us @ replicate ?k 250"
  have len: "length ?us + ?k = length ds"
    using sum_length_filter_compl [of "\<lambda>v. v \<noteq> 250" ds] by simp
  have us: "set ?us \<subseteq> {500, 1000, 2000}" using assms(1) by (auto simp: in_COUPON_VALUES)
  have sum: "sum_list ?d = target_amount"
    using sum_list_split_min [of ds] assms(3) by (simp add: sum_list_replicate_int)
  have n: "nat num_coupons = length ds" using assms(2) by auto
  from seed_loop_reach [OF us, of "[]" ?k] obtain rs rs'
    where "seed_loop [0..<length ?us + ?k] (replicate (length ?us + ?k) 250)
      (sum_list ?us - 250 * int (length ?us)) rs = (?d, 0, rs')" by auto
  moreover have "target_amount - sum_list (replicate (length ds) (250::int))
    = sum_list ?us - 250 * int (length ?us)"
    using sum_list_split_min [of ds] assms(3) len
    by (simp add: sum_list_replicate_int algebra_simps flip: len)
  ultimately have "search target_amount num_coupons rs = (?d, 0, rs')"
    using sum by (simp add: search_def min_COUPON_VALUES n len adjust_loop_done)
  moreover have "int (length ?d) = num_coupons" using len assms(2) by simp
  moreover have "set ?d \<subseteq> set COUPON_VALUES" using assms(1) by (auto simp: in_COUPON_VALUES)
  ultimately show ?thesis using sum by blast
qed

lemma search_750_1: "search 750 1 rs = ([500], 1000, stl rs)"
proof -
  have "seed_loop [0] [250] 500 rs = ([500], 250, stl rs)"
    by (simp add: upgrade_position_def COUPON_VALUES_def choice_1)
  moreover have "adjust_loop 750 1 [500] 0 (stl rs) = ([500], 1000, stl rs)"
    by (rule adjust_loop_stuck) (simp_all add: adjust_position_def COUPON_VALUES_def)
  ultimately show ?thesis by (simp add: search_one)
qed

text \<open>
  C1, as amended. Lying between \<open>count * 250\<close> and \<open>count * 2000\<close> does not make a
  target reachable: it must be the sum of \<open>count\<close> denominations. For every target and
  count for which some sequence of \<open>count\<close> values of the denomination set sums to the
  target, there is a sequence of random choices under which
  \<open>generate_coupon_distribution\<close> returns a sequence of length \<open>count\<close>, with every
  element in the denomination set, summing exactly to the target (seeding alone reaches
  it, and no adjustment round is run).
\<close>

theorem feasible_target_reachable:
  assumes "set ds \<subseteq> set COUPON_VALUES" "int (length ds) = num_coupons"
    "sum_list ds = target_amount"
  shows "\<exists>rs d rs'. generate_coupon_distribution target_amount num_coupons rs = (Some d, rs')
    \<and> int (length d) = num_coupons \<and> set d \<subseteq> set COUPON_VALUES
    \<and> sum_list d = target_amount"
proof -
  from search_reach [OF assms] obtain rs d rs'
    where s: "search target_amount num_coupons rs = (d, 0, rs')"
      and d: "int (length d) = num_coupons" "set d \<subseteq> set COUPON_VALUES"
        "sum_list d = target_amount" by blast
  have "int (length ds) * 250 \<le> sum_list ds" using assms(1)
    by (induction ds) (auto simp: in_COUPON_VALUES)
  with assms(2,3) have "\<not> target_amount < num_coupons * 250" by simp
  with s have "generate_coupon_distribution target_amount num_coupons rs = (Some d, rs')"
    by (simp add: generate_coupon_distribution_def min_COUPON_VALUES)
  with d show ?thesis by blast
qed

theorem feasible_target_reachable_witness:
  "set [250, 2000, 500] \<subseteq> set COUPON_VALUES \<and> int (length [250, 2000, 500 :: int]) = 3
   \<and> sum_list [250, 2000, 500] = (2750::int)
   \<and> (\<exists>rs d rs'. generate_coupon_distribution 2750 3 rs = (Some d, rs')
        \<and> int (length d) = 3 \<and> set d \<subseteq> set COUPON_VALUES \<and> sum_list d = 2750)"
  using feasible_target_reachable [of "[250, 2000, 500]" 3 2750]
  by (simp add: COUPON_VALUES_def)

text \<open>
  C1, as stated, fails at \<open>target = 750\<close>, \<open>count = 1\<close>: 750 lies between 250 and 2000,
  but whatever the random choices are the generator returns \<open>[500]\<close>, after all 1000
  adjustment rounds, since no single denomination equals 750.
\<close>

theorem target_in_range_unreachable:
  "(1::int) * 250 \<le> 750 \<and> (750::int) \<le> 1 * 2000
   \<and> (\<forall>rs. generate_coupon_distribution 750 1 rs = (Some [500], stl rs))
   \<and> \<not> (\<exists>rs d rs'. generate_coupon_distribution 750 1 rs = (Some d, rs')
          \<and> int (length d) = 1 \<and> set d \<subseteq> set COUPON_VALUES \<and> sum_list d = 750)"
proof -
  have "generate_coupon_distribution 750 1 rs = (Some [500], stl rs)" for rs
    by (simp add: generate_coupon_distribution_def min_COUPON_VALUES search_750_1)
  then show ?thesis by auto
qed

section \<open>The alternative-set builder\<close>

lemma generate_truthy_length:
  assumes "generate_coupon_distribution t n rs = (Some d, rs')" "d \<noteq> []"
  shows "int (length d) = n"
proof -
  from assms(1) have low: "n * 250 \<le> t"
    by (auto simp: generate_coupon_distribution_def min_COUPON_VALUES split: if_splits)
  from generate_Some [OF low, of rs] assms(1) obtain a
    where s: "search t n rs = (d, a, rs')" by auto
  show ?thesis
  proof (cases "0 \<le> n")
    case True
    from search_inv [OF s True low] show ?thesis by simp
  next
    case False
    then have "nat n = 0" by simp
    with s have "adjust_loop t n [] 0 rs = (d, a, rs')" by (simp add: search_def)
    from adjust_loop_inv [OF this] \<open>nat n = 0\<close> have "d = []" by simp
    with assms(2) show ?thesis by simp
  qed
qed

lemma alternatives_loop_Suc_cases:
  assumes "alternatives_loop (Suc k) t n m alts calls rs = res"
  obtains (stop) d rs1 where "generate_coupon_distribution t n rs = (Some d, rs1)"
      "d \<noteq> []" "sum_list d = t" "sort d \<notin> set (map sort alts)"
      "m \<le> int (length alts) + 1" "res = (alts @ [d], calls @ [Some d], rs1)"
  | (collect) d rs1 where "generate_coupon_distribution t n rs = (Some d, rs1)"
      "d \<noteq> []" "sum_list d = t" "sort d \<notin> set (map sort alts)"
      "int (length alts) + 1 < m"
      "res = alternatives_loop k t n m (alts @ [d]) (calls @ [Some d]) rs1"
  | (skip) r rs1 where "generate_coupon_distribution t n rs = (r, rs1)"
      "res = alternatives_loop k t n m alts (calls @ [r]) rs1"
proof (cases "generate_coupon_distribution t n rs")
  case (Pair r rs1)
  show thesis
  proof (cases r)
    case None
    with Pair assms show thesis by (intro skip [of r rs1]) auto
  next
    case (Some d)
    show thesis
    proof (cases "d \<noteq> [] \<and> sum_list d = t \<and> sort d \<notin> set (map sort alts)")
      case False
      with Pair Some assms show thesis by (intro skip [of r rs1]) (auto simp: Let_def)
    next
      case True
      show thesis
      proof (cases "m \<le> int (length alts) + 1")
        case True
        with \<open>d \<noteq> [] \<and> sum_list d = t \<and> sort d \<notin> set (map sort alts)\<close> Pair Some assms
        show thesis by (intro stop [of d rs1]) (auto simp: Let_def)
      next
        case False
        with \<open>d \<noteq> [] \<and> sum_list d = t \<and> sort d \<notin> set (map sort alts)\<close> Pair Some assms
        show thesis by (intro collect [of d rs1]) (auto simp: Let_def)
      qed
    qed
  qed
qed

lemma alternatives_loop_valid:
  assumes "alternatives_loop k t n m alts calls rs = (alts', calls', rs')"
    "\<forall>d\<in>set alts. sum_list d = t \<and> int (length d) = n"
  shows "\<forall>d\<in>set alts'. sum_list d = t \<and> int (length d) = n"
  using assms
proof (induction k arbitrary: alts calls rs)
  case 0
  then show ?case by simp
next
  case (Suc k)
  from Suc.prems(1) show ?case
  proof (cases rule: alternatives_loop_Suc_cases)
    case (stop d rs1)
    with Suc.prems(2) generate_truthy_length [OF stop(1,2)] show ?thesis by auto
  next
    case (collect d rs1)
    from Suc.prems(2) generate_truthy_length [OF collect(1,2)] collect(3)
    have "\<forall>x\<in>set (alts @ [d]). sum_list x = t \<and> int (length x) = n" by auto
    from Suc.IH [OF collect(6) [symmetric] this] show ?thesis .
  next
    case (skip r rs1)
    from Suc.IH [OF skip(2) [symmetric] Suc.prems(2)] show ?thesis .
  qed
qed

lemma alternatives_loop_distinct:
  assumes "alternatives_loop k t n m alts calls rs = (alts', calls', rs')"
    "distinct (map sort alts)"
  shows "distinct (map sort alts')"
  using assms
proof (induction k arbitrary: alts calls rs)
  case 0
  then show ?case by simp
next
  case (Suc k)
  from Suc.prems(1) show ?case
  proof (cases rule: alternatives_loop_Suc_cases)
    case (stop d rs1)
    with Suc.prems(2) show ?thesis by auto
  next
    case (collect d rs1)
    from Suc.prems(2) collect(4) have "distinct (map sort (alts @ [d]))" by auto
    from Suc.IH [OF collect(6) [symmetric] this] show ?thesis .
  next
    case (skip r rs1)
    from Suc.IH [OF skip(2) [symmetric] Suc.prems(2)] show ?thesis .
  qed
qed

lemma alternatives_loop_bounds:
  assumes "alternatives_loop k t n m alts calls rs = (alts', calls', rs')"
    "int (length alts) < m"
  shows "int (length alts') \<le> m \<and> length calls' \<le> length calls + k
    \<and> (length calls' < length calls + k \<longrightarrow> int (length alts') = m)
    \<and> (int (length alts') = m \<longrightarrow> calls' \<noteq> [] \<and> last calls' = Some (last alts'))"
  using assms
proof (induction k arbitrary: alts calls rs)
  case 0
  then show ?case by auto
next
  case (Suc k)
  from Suc.prems(1) show ?case
  proof (cases rule: alternatives_loop_Suc_cases)
    case (stop d rs1)
    with Suc.prems(2) show ?thesis by auto
  next
    case (collect d rs1)
    from collect(5) have "int (length (alts @ [d])) < m" by simp
    from Suc.IH [OF collect(6) [symmetric] this] show ?thesis by auto
  next
    case (skip r rs1)
    from Suc.IH [OF skip(2) [symmetric] Suc.prems(2)] show ?thesis by auto
  qed
qed

lemma max_attempts_Suc: "max_attempts = Suc 99"
  by (simp add: max_attempts_def)

lemma generate_750_2: "generate_coupon_distribution 750 2 rs = (Some [500, 250], stl rs)"
  by (simp add: generate_coupon_distribution_def search_def min_COUPON_VALUES
      upgrade_position_def COUPON_VALUES_def choice_def adjust_loop.simps numeral_2_eq_2)

lemma alternatives_750_2_1:
  "generate_alternative_combinations 750 2 1 rs = ([[500, 250]], [Some [500, 250]], stl rs)"
  unfolding generate_alternative_combinations_def max_attempts_Suc
  by (subst alternatives_loop.simps) (simp add: generate_750_2)

text \<open>
  C4. Whatever the target, the count, the requested maximum and the random choices are (in
  particular for positive ones), every entry of the sequence returned by
  \<open>generate_alternative_combinations\<close> sums exactly to the target and has length
  exactly \<open>count\<close>.
\<close>

theorem alternatives_sum_and_length:
  assumes "d \<in> set (fst (generate_alternative_combinations target_amount num_coupons
    num_alternatives rs))"
  shows "sum_list d = target_amount \<and> int (length d) = num_coupons"
proof -
  obtain alts calls rs' where run: "alternatives_loop max_attempts target_amount num_coupons
    num_alternatives [] [] rs = (alts, calls, rs')"
    by (cases "alternatives_loop max_attempts target_amount num_coupons num_alternatives [] [] rs")
      auto
  from alternatives_loop_valid [OF run] assms run show ?thesis
    by (simp add: generate_alternative_combinations_def)
qed

theorem alternatives_sum_and_length_witness:
  "[500, 250] \<in> set (fst (generate_alternative_combinations 750 2 1 (sconst 0)))
   \<and> sum_list [500, 250] = (750::int) \<and> int (length [500, 250 :: int]) = 2"
  using alternatives_sum_and_length [of "[500, 250]" 750 2 1 "sconst 0"]
  by (simp add: alternatives_750_2_1)

text \<open>
  C5. Whatever the target, the count, the requested maximum and the random choices are,
  the sorted forms of the entries returned by \<open>generate_alternative_combinations\<close> are
  pairwise different: no two entries at different positions are equal once sorted.
\<close>

theorem alternatives_sorted_distinct:
  "distinct (map sort (fst (generate_alternative_combinations target_amount num_coupons
     num_alternatives rs)))"
proof -
  obtain alts calls rs' where run: "alternatives_loop max_attempts target_amount num_coupons
    num_alternatives [] [] rs = (alts, calls, rs')"
    by (cases "alternatives_loop max_attempts target_amount num_coupons num_alternatives [] [] rs")
      auto
  from alternatives_loop_distinct [OF run] run show ?thesis
    by (simp add: generate_alternative_combinations_def)
qed

text \<open>
  C6. For a positive requested maximum, whatever the target, the count and the random
  choices are, \<open>generate_alternative_combinations\<close> returns at most
  \<open>num_alternatives\<close> entries and invokes the generator at most 100 times; it makes
  fewer than 100 invocations only when the maximum has been reached, and when the maximum
  is reached the last invocation is the one that produced the last entry, so that none
  follows it.
\<close>

theorem alternatives_bounded:
  assumes "0 < num_alternatives"
    "generate_alternative_combinations target_amount num_coupons num_alternatives rs
       = (alternatives, calls, rs')"
  shows "int (length alternatives) \<le> num_alternatives \<and> length calls \<le> 100
    \<and> (length calls < 100 \<longrightarrow> int (length alternatives) = num_alternatives)
    \<and> (int (length alternatives) = num_alternatives
         \<longrightarrow> calls \<noteq> [] \<and> last calls = Some (last alternatives))"
proof -
  from assms(2) have run: "alternatives_loop max_attempts target_amount num_coupons
    num_alternatives [] [] rs = (alternatives, calls, rs')"
    by (simp add: generate_alternative_combinations_def)
  from assms(1) have "int (length ([] :: int list list)) < num_alternatives" by simp
  from alternatives_loop_bounds [OF run this] show ?thesis by (simp add: max_attempts_def)
qed

theorem alternatives_bounded_witness:
  "(0::int) < 1
   \<and> generate_alternative_combinations 750 2 1 (sconst 0)
       = ([[500, 250]], [Some [500, 250]], sconst 0)
   \<and> int (length [[500, 250 :: int]]) \<le> 1 \<and> length [Some [500, 250 :: int]] \<le> 100
   \<and> length [Some [500, 250 :: int]] < 100 \<and> int (length [[500, 250 :: int]]) = 1
   \<and> [Some [500, 250 :: int]] \<noteq> []
   \<and> last [Some [500, 250 :: int]] = Some (last [[500, 250]])"
  using alternatives_bounded [of 1 750 2 "sconst 0" "[[500, 250]]" "[Some [500, 250]]" "sconst 0"]
  by (simp add: alternatives_750_2_1)

end
